theory Spec2Isabelle
  imports Main "HOL-Library.Sublist"
begin

section \<open>Strings\<close>

text \<open>
  A JavaScript string is modelled as a \<^typ>\<open>string\<close>, one \<^typ>\<open>char\<close> per code unit. The
  program inspects code units only by comparing them with ASCII characters (the delimiters of
  the scanner, the space, the number sign, the letters a to z), so nothing depends on how wide
  a code unit is. The one exception is the call of \<^verbatim>\<open>toUpperCase\<close> in \<^verbatim>\<open>internalLink\<close>, whose
  result is decided by the case table of the engine: that function is a parameter of the model.
  The apostrophe cannot stand in a string literal of the logic and gets a name.
\<close>

definition apostrophe :: char where
  "apostrophe = CHR 0x27"

definition q2 :: string where "q2 = replicate 2 apostrophe"
definition q3 :: string where "q3 = replicate 3 apostrophe"
definition q4 :: string where "q4 = replicate 4 apostrophe"
definition q5 :: string where "q5 = replicate 5 apostrophe"

text \<open>\<^verbatim>\<open>s.substr(start, len)\<close> and \<^verbatim>\<open>s.substr(start)\<close> for non-negative arguments.\<close>

definition substr :: "string \<Rightarrow> nat \<Rightarrow> nat \<Rightarrow> string" where
  "substr s start len = take len (drop start s)"

definition substr_from :: "string \<Rightarrow> nat \<Rightarrow> string" where
  "substr_from s start = drop start s"

section \<open>Tokens\<close>

text \<open>
  The \<^verbatim>\<open>type\<close> of a token is the string the regular expression matched, or \<^verbatim>\<open>'text'\<close>.
  These are twelve strings, modelled as an enumeration; the comment of each constructor is the
  string of the source.
\<close>

datatype kind =
    T_text       \<comment> \<open>\<^verbatim>\<open>text\<close>\<close>
  | T_q5         \<comment> \<open>five apostrophes\<close>
  | T_q4         \<comment> \<open>four apostrophes\<close>
  | T_q3         \<comment> \<open>three apostrophes\<close>
  | T_q2         \<comment> \<open>two apostrophes\<close>
  | T_b          \<comment> \<open>\<^verbatim>\<open><b>\<close>\<close>
  | T_b_end      \<comment> \<open>\<^verbatim>\<open></b>\<close>\<close>
  | T_i          \<comment> \<open>\<^verbatim>\<open><i>\<close>\<close>
  | T_i_end      \<comment> \<open>\<^verbatim>\<open></i>\<close>\<close>
  | T_link       \<comment> \<open>\<^verbatim>\<open>[[\<close>\<close>
  | T_link_end   \<comment> \<open>\<^verbatim>\<open>]]\<close>\<close>
  | T_pipe       \<comment> \<open>\<^verbatim>\<open>|\<close>\<close>

record token =
  tok_type :: kind
  tok_text :: string
  tok_pos  :: nat

section \<open>Lexical analysis\<close>

text \<open>
  The regular expression \<^verbatim>\<open>/('''''|''''|'''|''|<\/?[bi]>|\[\[|\]\]|\|)/g\<close> is an ordered
  alternation of literals: at one position the first alternative that matches wins. The
  alternative \<^verbatim>\<open><\/?[bi]>\<close> stands for four literals, which exclude one another.
\<close>

definition lexical :: "(string \<times> kind) list" where
  "lexical =
    [(q5, T_q5), (q4, T_q4), (q3, T_q3), (q2, T_q2),
     (''</b>'', T_b_end), (''</i>'', T_i_end), (''<b>'', T_b), (''<i>'', T_i),
     (''[['', T_link), ('']]'', T_link_end), (''|'', T_pipe)]"

definition match_at :: "string \<Rightarrow> (string \<times> kind) option" where
  "match_at s = find (\<lambda>(d, k). prefix d s) lexical"

lemma find_SomeD: "find P xs = Some x \<Longrightarrow> x \<in> set xs \<and> P x"
  by (induction xs) (auto split: if_splits)

lemma match_at_Some:
  assumes "match_at s = Some (d, k)"
  shows "d \<noteq> [] \<and> prefix d s"
proof -
  from assms have "(d, k) \<in> set lexical" and "prefix d s"
    using find_SomeD [of "\<lambda>(d, k). prefix d s" lexical "(d, k)"]
    by (auto simp: match_at_def)
  then show ?thesis
    by (auto simp: lexical_def q2_def q3_def q4_def q5_def)
qed

text \<open>
  The loop \<^verbatim>\<open>while ((match = lexical.exec(input)) != null)\<close>: \<^verbatim>\<open>exec\<close> looks for the
  leftmost match at or after \<^verbatim>\<open>lastIndex\<close> and moves \<^verbatim>\<open>lastIndex\<close> behind it. The
  first argument is \<^verbatim>\<open>lastIndex\<close>, the second the input from there on.
\<close>

function matches :: "nat \<Rightarrow> string \<Rightarrow> token list" where
  "matches i [] = []"
| "matches i (c # cs) =
    (case match_at (c # cs) of
       None \<Rightarrow> matches (Suc i) cs
     | Some (d, k) \<Rightarrow>
         \<lparr>tok_type = k, tok_text = d, tok_pos = i\<rparr>
           # matches (i + length d) (drop (length d) (c # cs)))"
  by pat_completeness auto
termination
proof (relation "measure (\<lambda>(i, s). length s)")
  show "wf (measure (\<lambda>(i, s). length s))" by simp
next
  fix i :: nat and c :: char and cs
  show "((Suc i, cs), (i, c # cs)) \<in> measure (\<lambda>(i, s). length s)" by simp
next
  fix i :: nat and c :: char and cs x2 d k
  assume "match_at (c # cs) = Some x2" and "(d, k) = x2"
  then have "d \<noteq> []" using match_at_Some by metis
  then show "((i + length d, drop (length d) (c # cs)), (i, c # cs))
      \<in> measure (\<lambda>(i, s). length s)"
    by (cases d) auto
qed

text \<open>The reducer of \<^verbatim>\<open>compile\<close>: the text before a match, if any, then the match.\<close>

definition compile_step :: "string \<Rightarrow> token list \<times> nat \<Rightarrow> token \<Rightarrow> token list \<times> nat" where
  "compile_step input = (\<lambda>(out, offset) match.
     ((if tok_pos match > offset
       then out @ [\<lparr>tok_type = T_text,
                    tok_text = substr input offset (tok_pos match - offset),
                    tok_pos = offset\<rparr>]
       else out) @ [match],
      tok_pos match + length (tok_text match)))"

text \<open>The end of \<^verbatim>\<open>compile\<close>: the text behind the last match, if any.\<close>

definition compile_end :: "string \<Rightarrow> token list \<times> nat \<Rightarrow> token list" where
  "compile_end input = (\<lambda>(tokens, offset).
     if offset < length input
     then tokens @ [\<lparr>tok_type = T_text, tok_text = substr_from input offset, tok_pos = offset\<rparr>]
     else tokens)"

definition compile :: "string \<Rightarrow> token list" where
  "compile input =
     compile_end input (foldl (compile_step input) ([], 0) (matches 0 input))"

text \<open>
  The tokens of a list are contiguous from position \<open>p\<close> on when the first one starts at
  \<open>p\<close> and each one starts where the text of the one before it ends.
\<close>

fun contiguous :: "nat \<Rightarrow> token list \<Rightarrow> bool" where
  "contiguous p [] = True"
| "contiguous p (t # ts) = (tok_pos t = p \<and> contiguous (p + length (tok_text t)) ts)"

text \<open>
  A run of apostrophes is split when a token of two, three or four apostrophes is followed at
  once by another token of apostrophes, as in three and two, or two and three, for a run of
  five.
\<close>

definition quote_run :: "kind \<Rightarrow> bool" where
  "quote_run k = (k \<in> {T_q2, T_q3, T_q4, T_q5})"

fun split_run :: "token list \<Rightarrow> bool" where
  "split_run (a # b # ts) =
     ((quote_run (tok_type a) \<and> tok_type a \<noteq> T_q5 \<and> quote_run (tok_type b))
      \<or> split_run (b # ts))"
| "split_run ts = False"

definition starts_quote :: "token list \<Rightarrow> bool" where
  "starts_quote r = (case r of [] \<Rightarrow> False | t # ts \<Rightarrow> quote_run (tok_type t))"

section \<open>Syntax trees\<close>

text \<open>
  The classes \<^verbatim>\<open>Text\<close>, \<^verbatim>\<open>Sentence\<close>, \<^verbatim>\<open>Italic\<close>, \<^verbatim>\<open>Bold\<close> and \<^verbatim>\<open>Link\<close>. The last four
  extend \<^verbatim>\<open>NodeWithChilds\<close> and carry the array \<^verbatim>\<open>childs\<close>; a link has a \<^verbatim>\<open>target\<close> as well.
  A tree owns its nodes, so the optimizer's assignments to \<^verbatim>\<open>ast.childs\<close> are modelled by
  building the new tree.
\<close>

datatype node =
    Text string
  | Sentence "node list"
  | Italic "node list"
  | Bold "node list"
  | Link string "node list"

text \<open>
  \<^verbatim>\<open>transform\<close> joins the renderings of the children; \<^verbatim>\<open>out ? join : ''\<close> puts the
  separator only behind a non-empty prefix.
\<close>

definition transform :: "node list \<Rightarrow> (node \<Rightarrow> string) \<Rightarrow> string \<Rightarrow> string" where
  "transform childs f join =
     foldl (\<lambda>out child. out @ (if out \<noteq> [] then join else []) @ f child) [] childs"

lemma transform_cong [fundef_cong]:
  "childs = childs' \<Longrightarrow> (\<And>c. c \<in> set childs' \<Longrightarrow> f c = g c) \<Longrightarrow> join = join'
    \<Longrightarrow> transform childs f join = transform childs' g join'"
  unfolding transform_def by (rule foldl_cong) auto

fun toText :: "node \<Rightarrow> string" where
  "toText (Text text) = text"
| "toText (Sentence childs) = transform childs toText []"
| "toText (Italic childs) = transform childs toText []"
| "toText (Bold childs) = transform childs toText []"
| "toText (Link target childs) = transform childs toText []"

section \<open>Links\<close>

text \<open>
  The getters of \<^verbatim>\<open>Link\<close> read the target only and are functions of the target string.
  \<^verbatim>\<open>isExternal\<close> tests \<^verbatim>\<open>/^[a-z]+:\/\//\<close>: a non-empty run of the letters a to z at the start,
  then \<^verbatim>\<open>://\<close>; the colon is not a letter, so the run is the longest one.
\<close>

definition lower_letter :: "char \<Rightarrow> bool" where
  "lower_letter c = (c \<in> set ''abcdefghijklmnopqrstuvwxyz'')"

definition isExternal :: "string \<Rightarrow> bool" where
  "isExternal target =
     (takeWhile lower_letter target \<noteq> [] \<and> prefix ''://'' (dropWhile lower_letter target))"

text \<open>\<^verbatim>\<open>.replace(/ /g, '_')\<close>\<close>

definition replace_spaces :: "string \<Rightarrow> string" where
  "replace_spaces s = map (\<lambda>c. if c = CHR '' '' then CHR ''_'' else c) s"

text \<open>
  \<^verbatim>\<open>internalLink\<close> calls \<^verbatim>\<open>String.prototype.toUpperCase\<close> on the first code unit. What that
  returns is fixed by the case table of the engine and not by the program: a letter outside
  ASCII has an upper case of its own, and the result may be longer than its argument or leave
  the range of one code unit. The function is therefore an argument, \<open>toUpperCase\<close>, of
  \<^verbatim>\<open>internalLink\<close> and of \<^verbatim>\<open>href\<close>, and what is proved of them holds for every such function.
\<close>

definition internalLink :: "(string \<Rightarrow> string) \<Rightarrow> string \<Rightarrow> string" where
  "internalLink toUpperCase target =
     ''./'' @ toUpperCase (substr target 0 1) @ replace_spaces (substr_from target 1)"

definition href :: "(string \<Rightarrow> string) \<Rightarrow> string \<Rightarrow> string" where
  "href toUpperCase target =
     (if isExternal target then target else internalLink toUpperCase target)"

text \<open>
  For the concrete targets below, all of them ASCII strings: on a string of ASCII characters
  \<^verbatim>\<open>toUpperCase\<close> turns the letters a to z into A to Z and keeps every other character. This
  function is applied to ASCII strings only; it says nothing of other strings.
\<close>

definition toUpperCase_ascii :: "string \<Rightarrow> string" where
  "toUpperCase_ascii s =
     map (\<lambda>c. case map_of (zip ''abcdefghijklmnopqrstuvwxyz'' ''ABCDEFGHIJKLMNOPQRSTUVWXYZ'') c of
               Some u \<Rightarrow> u | None \<Rightarrow> c) s"

definition site :: "string \<Rightarrow> string option" where
  "site target = (if isExternal target then Some target else None)"

text \<open>
  \<^verbatim>\<open>.replace(/#[^#]*$/, '')\<close> removes the last number sign and what follows it;
  \<^verbatim>\<open>|| undefined\<close> turns the empty string into \<^verbatim>\<open>undefined\<close>, here \<^const>\<open>None\<close>.
\<close>

definition strip_anchor :: "string \<Rightarrow> string" where
  "strip_anchor target =
     (if CHR ''#'' \<in> set target
      then rev (tl (dropWhile (\<lambda>c. c \<noteq> CHR ''#'') (rev target)))
      else target)"

definition page :: "string \<Rightarrow> string option" where
  "page target =
     (if isExternal target then None
      else if strip_anchor target \<noteq> [] then Some (strip_anchor target) else None)"

text \<open>\<^verbatim>\<open>.replace(/^[^#]+/, '')\<close> removes what stands before the first number sign.\<close>

definition anchor :: "string \<Rightarrow> string option" where
  "anchor target =
     (let tail = dropWhile (\<lambda>c. c \<noteq> CHR ''#'') target
      in if tail \<noteq> [] then Some (substr_from tail 1) else None)"

text \<open>
  \<^verbatim>\<open>Link.toJSON\<close> builds the object and deletes the keys whose value is \<^verbatim>\<open>undefined\<close>: a key
  is present exactly when its field is not \<^const>\<open>None\<close>.
\<close>

record link_json =
  json_type :: string
  json_text :: string
  json_site :: "string option"
  json_page :: "string option"
  json_anchor :: "string option"

definition Link_toJSON :: "string \<Rightarrow> node list \<Rightarrow> link_json" where
  "Link_toJSON target childs =
     \<lparr>json_type = (if isExternal target then ''external'' else ''internal''),
      json_text = toText (Link target childs),
      json_site = site target,
      json_page = page target,
      json_anchor = anchor target\<rparr>"


section \<open>Syntax analysis\<close>

text \<open>
  The table \<^verbatim>\<open>parsers\<close> has eight keys. A value is the text parser, the link parser, or
  \<^verbatim>\<open>until(end, then)\<close> with its closing type and its wrapping function. The parsers read
  the tokens through \<^verbatim>\<open>peek\<close> and \<^verbatim>\<open>consume\<close>; in the model each takes the tokens from
  index \<^verbatim>\<open>i\<close> on and returns the ones it has left.
\<close>

datatype parser = P_text | P_link | P_until kind "node list \<Rightarrow> node list"

definition parsers :: "kind \<Rightarrow> parser option" where
  "parsers type =
    (case type of
       T_text \<Rightarrow> Some P_text
     | T_link \<Rightarrow> Some P_link
     | T_b  \<Rightarrow> Some (P_until T_b_end (\<lambda>childs. [Bold childs]))
     | T_q3 \<Rightarrow> Some (P_until T_q3 (\<lambda>childs. [Bold childs]))
     | T_q4 \<Rightarrow> Some (P_until T_q4 (\<lambda>childs. [Bold ([Text [apostrophe]] @ childs @ [Text [apostrophe]])]))
     | T_q5 \<Rightarrow> Some (P_until T_q5 (\<lambda>childs. [Italic [Bold childs]]))
     | T_i  \<Rightarrow> Some (P_until T_i_end (\<lambda>childs. [Italic childs]))
     | T_q2 \<Rightarrow> Some (P_until T_q2 (\<lambda>childs. [Italic childs]))
     | _ \<Rightarrow> None)"

text \<open>The end of the link parser, behind its loop.\<close>

definition link_result :: "bool \<Rightarrow> node list \<Rightarrow> node list \<Rightarrow> node list" where
  "link_result pipe pre post =
    (if pipe \<and> post = [] then []
     else let post = (if \<not> pipe then pre else post) in
       if pre = [] then post
       else let link = concat (map toText pre) in [Link link post])"

text \<open>
  \<^verbatim>\<open>parseToken\<close> looks the parser up, \<^verbatim>\<open>parsers[token.type] || parsers.text\<close>, and runs it.
  \<^verbatim>\<open>until_loop\<close> and \<^verbatim>\<open>link_loop\<close> are the \<^verbatim>\<open>while (peek())\<close> loops of \<^verbatim>\<open>until\<close> and
  of the link parser, with the variables of each loop as arguments.
\<close>

function parseToken :: "token \<Rightarrow> token list \<Rightarrow> node list \<times> token list"
  and until_loop :: "kind \<Rightarrow> node list \<Rightarrow> token list \<Rightarrow> node list \<times> token list"
  and link_loop :: "bool \<Rightarrow> node list \<Rightarrow> node list \<Rightarrow> token list
                     \<Rightarrow> (bool \<times> node list \<times> node list) \<times> token list"
where
  "parseToken token ts =
    (case (case parsers (tok_type token) of Some p \<Rightarrow> p | None \<Rightarrow> P_text) of
       P_text \<Rightarrow> ([Text (tok_text token)], ts)
     | P_link \<Rightarrow>
         (case link_loop False [] [] ts of
            ((pipe, pre, post), rest) \<Rightarrow> (link_result pipe pre post, rest))
     | P_until endt wrap \<Rightarrow>
         (case until_loop endt [] ts of
            (childs, rest) \<Rightarrow> (if childs \<noteq> [] then wrap childs else [], rest)))"
| "until_loop endt childs [] = (childs, [])"
| "until_loop endt childs (x # ts) =
    (if tok_type x = endt then (childs, ts)
     else case parseToken x ts of
            (parsed, rest) \<Rightarrow> until_loop endt (childs @ parsed) rest)"
| "link_loop pipe pre post [] = ((pipe, pre, post), [])"
| "link_loop pipe pre post (x # ts) =
    (if tok_type x = T_pipe then link_loop True pre post ts
     else if tok_type x = T_link_end then ((pipe, pre, post), ts)
     else case parseToken x ts of
            (parsed, rest) \<Rightarrow>
              if pipe then link_loop pipe pre (post @ parsed) rest
              else link_loop pipe (pre @ parsed) post rest)"
  by pat_completeness auto


lemma parse_rest_length:
  "parseToken_until_loop_link_loop_dom (Inl (token, ts))
     \<Longrightarrow> length (snd (parseToken token ts)) \<le> length ts"
  "parseToken_until_loop_link_loop_dom (Inr (Inl (endt, childs, ts)))
     \<Longrightarrow> length (snd (until_loop endt childs ts)) \<le> length ts"
  "parseToken_until_loop_link_loop_dom (Inr (Inr (pipe, pre, post, ts)))
     \<Longrightarrow> length (snd (link_loop pipe pre post ts)) \<le> length ts"
proof (induct rule: parseToken_until_loop_link_loop.pinduct)
  case (1 token ts)
  then show ?case
    by (auto simp: parseToken.psimps split: parser.splits prod.splits)
next
  case (2 endt childs)
  then show ?case by (simp add: until_loop.psimps)
next
  case (3 endt childs x ts)
  then show ?case
    by (fastforce simp: until_loop.psimps split: prod.splits)
next
  case (4 pipe pre post)
  then show ?case by (simp add: link_loop.psimps)
next
  case (5 pipe pre post x ts)
  then show ?case
    by (fastforce simp: link_loop.psimps split: prod.splits)
qed

termination parseToken
proof (relation "measure (\<lambda>x. case x of
          Inl (token, ts) \<Rightarrow> 2 * length ts + 1
        | Inr (Inl (endt, childs, ts)) \<Rightarrow> 2 * length ts
        | Inr (Inr (pipe, pre, post, ts)) \<Rightarrow> 2 * length ts)", goal_cases)
  case (5 endt childs x ts xa y)
  then show ?case using parse_rest_length(1) [of x ts] by (cases "parseToken x ts") auto
next
  case (9 pipe pre post x ts xa y)
  then show ?case using parse_rest_length(1) [of x ts] by (cases "parseToken x ts") auto
next
  case (8 pipe pre post x ts xa y)
  then show ?case using parse_rest_length(1) [of x ts] by (cases "parseToken x ts") auto
qed auto


lemma parseToken_rest_length: "length (snd (parseToken token ts)) \<le> length ts"
  and until_loop_rest_length: "length (snd (until_loop endt childs ts)) \<le> length ts"
  and link_loop_rest_length: "length (snd (link_loop pipe pre post ts)) \<le> length ts"
proof (induct token ts and endt childs ts and pipe pre post ts
    rule: parseToken_until_loop_link_loop.induct)
  case (1 token ts)
  then show ?case
    by (auto split: parser.splits prod.splits)
next
  case (3 endt childs x ts)
  then show ?case
    by (fastforce split: prod.splits)
next
  case (5 pipe pre post x ts)
  then show ?case
    by (fastforce split: prod.splits)
qed simp_all

text \<open>The loop at the end of \<^verbatim>\<open>parse\<close>, and \<^verbatim>\<open>parse\<close>.\<close>

function parse_loop :: "node list \<Rightarrow> token list \<Rightarrow> node list" where
  "parse_loop out [] = out"
| "parse_loop out (x # ts) =
    (case parseToken x ts of (parsed, rest) \<Rightarrow> parse_loop (out @ parsed) rest)"
  by pat_completeness auto
termination
proof (relation "measure (\<lambda>(out, ts). length ts)", goal_cases)
  case (2 out x ts xa y)
  then show ?case using parseToken_rest_length [of x ts] by (cases "parseToken x ts") auto
qed simp

definition parse :: "token list \<Rightarrow> node" where
  "parse tokens = Sentence (parse_loop [] tokens)"

section \<open>Constructs left open at the end of the input\<close>

text \<open>
  A loop of the parser ends at its closing token or when the tokens run out. The closing
  types of the loops that the end of the input has cut short, the innermost first, are
  computed here along the parser's own recursion: they are the tokens a writer would have had
  to add to close every construct at the end of the input. \<^verbatim>\<open>unclosed_token\<close> follows
  \<^verbatim>\<open>parseToken\<close>, \<^verbatim>\<open>unclosed_until\<close> and \<^verbatim>\<open>unclosed_link\<close> the two loops, and \<^verbatim>\<open>unclosed\<close>
  the loop of \<^verbatim>\<open>parse\<close>.
\<close>

function unclosed_token :: "token \<Rightarrow> token list \<Rightarrow> kind list"
  and unclosed_until :: "kind \<Rightarrow> token list \<Rightarrow> kind list"
  and unclosed_link :: "token list \<Rightarrow> kind list"
where
  "unclosed_token token ts =
    (case (case parsers (tok_type token) of Some p \<Rightarrow> p | None \<Rightarrow> P_text) of
       P_text \<Rightarrow> []
     | P_link \<Rightarrow> unclosed_link ts
     | P_until endt wrap \<Rightarrow> unclosed_until endt ts)"
| "unclosed_until endt [] = [endt]"
| "unclosed_until endt (x # ts) =
    (if tok_type x = endt then []
     else unclosed_token x ts @ unclosed_until endt (snd (parseToken x ts)))"
| "unclosed_link [] = [T_link_end]"
| "unclosed_link (x # ts) =
    (if tok_type x = T_pipe then unclosed_link ts
     else if tok_type x = T_link_end then []
     else unclosed_token x ts @ unclosed_link (snd (parseToken x ts)))"
  by pat_completeness auto
termination
proof (relation "measure (\<lambda>x. case x of
          Inl (token, ts) \<Rightarrow> 2 * length ts + 1
        | Inr (Inl (endt, ts)) \<Rightarrow> 2 * length ts
        | Inr (Inr ts) \<Rightarrow> 2 * length ts)", goal_cases)
  case (5 endt x ts)
  then show ?case using parseToken_rest_length [of x ts] by simp
next
  case (8 x ts)
  then show ?case using parseToken_rest_length [of x ts] by simp
qed auto

function unclosed :: "token list \<Rightarrow> kind list" where
  "unclosed [] = []"
| "unclosed (x # ts) = unclosed_token x ts @ unclosed (snd (parseToken x ts))"
  by pat_completeness auto
termination
proof (relation "measure length", goal_cases)
  case (2 x ts)
  then show ?case using parseToken_rest_length [of x ts] by simp
qed simp


section \<open>Optimizer\<close>

text \<open>
  The options \<^verbatim>\<open>optimize_conf\<close> and the context, whose three keys are absent (falsy) at the
  start.
\<close>

record conf =
  combineTexts :: bool
  combineItalics :: bool
  combineBolds :: bool
  nestedLinks :: bool
  nestedItalics :: bool
  nestedBolds :: bool

definition optimize_conf :: conf where
  "optimize_conf = \<lparr>combineTexts = True, combineItalics = True, combineBolds = True,
     nestedLinks = True, nestedItalics = True, nestedBolds = True\<rparr>"

record "context" =
  link :: bool
  italic :: bool
  bold :: bool

definition empty_context :: "context" where
  "empty_context = \<lparr>link = False, italic = False, bold = False\<rparr>"

text \<open>The class handed to \<^verbatim>\<open>_optimize_combine\<close>.\<close>

datatype classy = C_Text | C_Italic | C_Bold

text \<open>
  The first \<^verbatim>\<open>reduce\<close> of \<^verbatim>\<open>optimize\<close>, "remove tags inside tags": a child whose class is
  marked in the context gives way to its own children.
\<close>

fun flatten_step :: "context \<Rightarrow> node list \<Rightarrow> node \<Rightarrow> node list" where
  "flatten_step ctx out (Link target childs) =
     (if link ctx then out @ childs else out @ [Link target childs])"
| "flatten_step ctx out (Italic childs) =
     (if italic ctx then out @ childs else out @ [Italic childs])"
| "flatten_step ctx out (Bold childs) =
     (if bold ctx then out @ childs else out @ [Bold childs])"
| "flatten_step ctx out node = out @ [node]"

definition flatten :: "context \<Rightarrow> node list \<Rightarrow> node list" where
  "flatten ctx childs = foldl (flatten_step ctx) [] childs"

text \<open>
  \<^verbatim>\<open>last instanceof classy && node instanceof classy\<close> together with the \<^verbatim>\<open>combine\<close>
  function that goes with the class: the merged node when both nodes are of the class.
\<close>

fun combine :: "classy \<Rightarrow> node \<Rightarrow> node \<Rightarrow> node option" where
  "combine C_Text (Text a) (Text b) = Some (Text (a @ b))"
| "combine C_Italic (Italic a) (Italic b) = Some (Italic (a @ b))"
| "combine C_Bold (Bold a) (Bold b) = Some (Bold (a @ b))"
| "combine classy a b = None"

text \<open>The condition under which \<^verbatim>\<open>_optimize_combine\<close> skips a class.\<close>

definition skip :: "conf \<Rightarrow> classy \<Rightarrow> bool" where
  "skip conf classy =
     ((classy = C_Text \<and> \<not> combineTexts conf)
      \<or> (classy = C_Italic \<and> \<not> combineItalics conf)
      \<or> (classy = C_Bold \<and> \<not> combineBolds conf))"

text \<open>The number of nodes of a tree, the measure of the optimizer's recursion.\<close>

fun sz :: "node \<Rightarrow> nat" where
  "sz (Text text) = 1"
| "sz (Sentence childs) = Suc (sum_list (map sz childs))"
| "sz (Italic childs) = Suc (sum_list (map sz childs))"
| "sz (Bold childs) = Suc (sum_list (map sz childs))"
| "sz (Link target childs) = Suc (sum_list (map sz childs))"

abbreviation szs :: "node list \<Rightarrow> nat" where
  "szs ns \<equiv> sum_list (map sz ns)"

text \<open>
  \<^verbatim>\<open>optimize\<close>. \<^verbatim>\<open>optimize_childs\<close> is the chain that computes the new \<^verbatim>\<open>ast.childs\<close>,
  \<^verbatim>\<open>optimize_map\<close> its \<^verbatim>\<open>.map(node => optimize(node, conf, ctx))\<close>, and \<^verbatim>\<open>optimize_reduce\<close>
  a \<^verbatim>\<open>.reduce(_optimize_combine(conf, ctx, classy, combine), out)\<close>, whose step merges the new node
  into the last one of \<^verbatim>\<open>out\<close> and optimizes the merged node again.
\<close>

function optimize :: "conf \<Rightarrow> context \<Rightarrow> node \<Rightarrow> node"
  and optimize_childs :: "conf \<Rightarrow> context \<Rightarrow> node list \<Rightarrow> node list"
  and optimize_map :: "conf \<Rightarrow> context \<Rightarrow> node list \<Rightarrow> node list"
  and optimize_reduce :: "conf \<Rightarrow> context \<Rightarrow> classy \<Rightarrow> node list \<Rightarrow> node list \<Rightarrow> node list"
where
  "optimize conf context (Text text) = Text text"
| "optimize conf context (Sentence childs) = Sentence (optimize_childs conf context childs)"
| "optimize conf context (Italic childs) =
     Italic (optimize_childs conf
       (if nestedItalics conf then context\<lparr>italic := True\<rparr> else context) childs)"
| "optimize conf context (Bold childs) =
     Bold (optimize_childs conf
       (if nestedBolds conf then context\<lparr>bold := True\<rparr> else context) childs)"
| "optimize conf context (Link target childs) =
     Link target (optimize_childs conf
       (if nestedLinks conf then context\<lparr>link := True\<rparr> else context) childs)"
| "optimize_childs conf ctx childs =
     optimize_reduce conf ctx C_Bold []
       (optimize_reduce conf ctx C_Italic []
         (optimize_reduce conf ctx C_Text []
           (optimize_map conf ctx (flatten ctx childs))))"
| "optimize_map conf ctx [] = []"
| "optimize_map conf ctx (node # nodes) = optimize conf ctx node # optimize_map conf ctx nodes"
| "optimize_reduce conf ctx classy out [] = out"
| "optimize_reduce conf ctx classy out (node # nodes) =
     optimize_reduce conf ctx classy
       (if skip conf classy then out @ [node]
        else case (if out = [] then None else combine classy (last out) node) of
               Some merged \<Rightarrow> butlast out @ [optimize conf ctx merged]
             | None \<Rightarrow> out @ [node])
       nodes"
  by pat_completeness auto


lemma szs_flatten_foldl: "szs (foldl (flatten_step ctx) out childs) \<le> szs out + szs childs"
proof (induction childs arbitrary: out)
  case Nil
  then show ?case by simp
next
  case (Cons node childs)
  have "szs (flatten_step ctx out node) \<le> szs out + sz node"
    by (cases node) simp_all
  with Cons [of "flatten_step ctx out node"] show ?case by simp
qed

lemma szs_flatten: "szs (flatten ctx childs) \<le> szs childs"
  using szs_flatten_foldl [of ctx "[]" childs] by (simp add: flatten_def)

lemma sz_combine: "combine classy a b = Some merged \<Longrightarrow> Suc (sz merged) = sz a + sz b"
  by (induction classy a b rule: combine.induct) auto

lemma szs_butlast: "out \<noteq> [] \<Longrightarrow> szs (butlast out) + sz (last out) = szs out"
  by (induction out) auto

lemma sz_positive: "0 < sz node"
  by (cases node) simp_all

lemma optimize_size_dom:
  "optimize_optimize_childs_optimize_map_optimize_reduce_dom (Inl (Inl (conf, context, ast)))
     \<Longrightarrow> sz (optimize conf context ast) \<le> sz ast"
  "optimize_optimize_childs_optimize_map_optimize_reduce_dom (Inl (Inr (conf, ctx, childs)))
     \<Longrightarrow> szs (optimize_childs conf ctx childs) \<le> szs childs"
  "optimize_optimize_childs_optimize_map_optimize_reduce_dom (Inr (Inl (conf, ctx, nodes)))
     \<Longrightarrow> szs (optimize_map conf ctx nodes) \<le> szs nodes"
  "optimize_optimize_childs_optimize_map_optimize_reduce_dom (Inr (Inr (conf, ctx, classy, out, nodes)))
     \<Longrightarrow> szs (optimize_reduce conf ctx classy out nodes) \<le> szs out + szs nodes"
proof (induct rule: optimize_optimize_childs_optimize_map_optimize_reduce.pinduct)
  case (6 conf ctx childs)
  from 6(2-5) szs_flatten [of ctx childs] show ?case
    using 6(1) by (simp add: optimize_childs.psimps)
next
  case (8 conf ctx node nodes)
  then show ?case by (simp add: optimize_map.psimps)
next
  case (10 conf ctx classy out node nodes)
  let ?out = "if skip conf classy then out @ [node]
         else case if out = [] then None else combine classy (last out) node of
              None \<Rightarrow> out @ [node]
              | Some merged \<Rightarrow> butlast out @ [optimize conf ctx merged]"
  have "szs ?out \<le> szs out + sz node"
  proof (cases "\<not> skip conf classy \<and> out \<noteq> [] \<and> combine classy (last out) node \<noteq> None")
    case True
    then obtain merged where m: "combine classy (last out) node = Some merged" by auto
    have "sz (optimize conf ctx merged) \<le> sz merged"
      using 10(2) [of merged] True m by simp
    moreover have "Suc (sz merged) = sz (last out) + sz node" using sz_combine [OF m] .
    moreover have "szs (butlast out) + sz (last out) = szs out" using szs_butlast True by simp
    ultimately show ?thesis using True m by simp
  next
    case False
    then show ?thesis by (auto split: option.splits)
  qed
  with 10(3) show ?case
    using 10(1) by (simp add: optimize_reduce.psimps)
qed (simp_all add: optimize.psimps optimize_map.psimps optimize_reduce.psimps)

termination optimize
proof (relation "measures
   [\<lambda>x. case x of
        Inl (Inl (conf, context, ast)) \<Rightarrow> sz ast
      | Inl (Inr (conf, ctx, childs)) \<Rightarrow> szs childs
      | Inr (Inl (conf, ctx, nodes)) \<Rightarrow> szs nodes
      | Inr (Inr (conf, ctx, classy, out, nodes)) \<Rightarrow> szs out + szs nodes,
    \<lambda>x. case x of
        Inl (Inl (conf, context, ast)) \<Rightarrow> 0
      | Inl (Inr (conf, ctx, childs)) \<Rightarrow> 2
      | Inr (Inl (conf, ctx, nodes)) \<Rightarrow> 1
      | Inr (Inr (conf, ctx, classy, out, nodes)) \<Rightarrow> 1,
    \<lambda>x. case x of
        Inr (Inr (conf, ctx, classy, out, nodes)) \<Rightarrow> length nodes
      | _ \<Rightarrow> 0]", goal_cases)
  case 1
  then show ?case by simp
next
  case (6 conf ctx childs)
  then show ?case using szs_flatten [of ctx childs] by auto
next
  case (7 conf ctx childs)
  then show ?case using szs_flatten [of ctx childs] optimize_size_dom(3) [of conf ctx "flatten ctx childs"]
    by auto
next
  case (8 conf ctx childs)
  then show ?case using szs_flatten [of ctx childs] optimize_size_dom(3) [of conf ctx "flatten ctx childs"]
     optimize_size_dom(4) [of conf ctx C_Text "[]" "optimize_map conf ctx (flatten ctx childs)"]
    by auto
next
  case (9 conf ctx childs)
  then show ?case using szs_flatten [of ctx childs] optimize_size_dom(3) [of conf ctx "flatten ctx childs"]
     optimize_size_dom(4) [of conf ctx C_Text "[]" "optimize_map conf ctx (flatten ctx childs)"]
     optimize_size_dom(4) [of conf ctx C_Italic "[]" "optimize_reduce conf ctx C_Text [] (optimize_map conf ctx (flatten ctx childs))"]
    by auto
next
  case (10 conf ctx node nodes)
  then show ?case by (cases nodes) (auto simp: sz_positive)
next
  case (11 conf ctx node nodes)
  then show ?case by (auto simp: sz_positive)
next
  case (12 conf ctx classy out node nodes x2)
  then have "out \<noteq> []" and m: "combine classy (last out) node = Some x2"
    by (auto split: if_splits)
  with sz_combine [OF m] szs_butlast [of out] show ?case by auto
next
  case (13 conf ctx classy out node nodes)
  show ?case
  proof (cases "\<not> skip conf classy \<and> out \<noteq> [] \<and> combine classy (last out) node \<noteq> None")
    case True
    then obtain merged where m: "combine classy (last out) node = Some merged" by auto
    have "sz (optimize conf ctx merged) \<le> sz merged"
      using 13 [of merged] True m optimize_size_dom(1) by simp
    moreover have "Suc (sz merged) = sz (last out) + sz node" using sz_combine [OF m] .
    moreover have "szs (butlast out) + sz (last out) = szs out" using szs_butlast True by simp
    ultimately show ?thesis using True m by simp
  next
    case False
    then show ?thesis by (auto split: option.splits)
  qed
qed auto


text \<open>
  The reducer \<^verbatim>\<open>_optimize_combine(conf, ctx, classy, combine)\<close> itself; the two loops above are
  the \<^verbatim>\<open>map\<close> and the \<^verbatim>\<open>reduce\<close> with it (lemmas \<open>optimize_map_map\<close> and
  \<open>optimize_reduce_foldl\<close>).
\<close>

definition optimize_combine :: "conf \<Rightarrow> context \<Rightarrow> classy \<Rightarrow> node list \<Rightarrow> node \<Rightarrow> node list" where
  "optimize_combine conf ctx classy out node =
     (if skip conf classy then out @ [node]
      else case (if out = [] then None else combine classy (last out) node) of
             Some merged \<Rightarrow> butlast out @ [optimize conf ctx merged]
           | None \<Rightarrow> out @ [node])"

section \<open>Evaluation and auxiliary facts\<close>

lemma match_at_simps:
  "match_at s = (if prefix q5 s then Some (q5, T_q5) else if prefix q4 s then Some (q4, T_q4)
     else if prefix q3 s then Some (q3, T_q3) else if prefix q2 s then Some (q2, T_q2)
     else if prefix ''</b>'' s then Some (''</b>'', T_b_end)
     else if prefix ''</i>'' s then Some (''</i>'', T_i_end)
     else if prefix ''<b>'' s then Some (''<b>'', T_b)
     else if prefix ''<i>'' s then Some (''<i>'', T_i)
     else if prefix ''[['' s then Some (''[['', T_link)
     else if prefix '']]'' s then Some ('']]'', T_link_end)
     else if prefix ''|'' s then Some (''|'', T_pipe) else None)"
  by (simp add: match_at_def lexical_def)

lemmas scan_eval = compile_def compile_end_def compile_step_def match_at_simps q5_def q4_def q3_def q2_def
  apostrophe_def substr_def substr_from_def eval_nat_numeral

lemmas parse_eval = parse_def parsers_def link_result_def transform_def

lemmas link_eval = isExternal_def lower_letter_def toUpperCase_ascii_def replace_spaces_def
  internalLink_def href_def site_def strip_anchor_def page_def anchor_def Link_toJSON_def
  substr_def substr_from_def transform_def





lemma closing_appended:
  "map tok_type cs = unclosed_token token ts \<Longrightarrow>
     parseToken token (ts @ cs @ zs) = (fst (parseToken token ts), snd (parseToken token ts) @ zs)"
  "map tok_type cs = unclosed_until endt ts \<Longrightarrow>
     until_loop endt childs (ts @ cs @ zs)
       = (fst (until_loop endt childs ts), snd (until_loop endt childs ts) @ zs)"
  "map tok_type cs = unclosed_link ts \<Longrightarrow>
     link_loop pipe pre post (ts @ cs @ zs)
       = (fst (link_loop pipe pre post ts), snd (link_loop pipe pre post ts) @ zs)"
proof (induct token ts and endt childs ts and pipe pre post ts
    arbitrary: cs zs and cs zs and cs zs
    rule: parseToken_until_loop_link_loop.induct)
  case (1 token ts)
  then show ?case 
    by (auto split: parser.splits prod.splits option.splits)
next
  case (2 endt childs)
  then show ?case by (cases cs) auto
next
  case (3 endt childs x ts)
  show ?case
  proof (cases "tok_type x = endt")
    case True
    with 3 show ?thesis by simp
  next
    case False
    obtain parsed rest where p: "parseToken x ts = (parsed, rest)" by (cases "parseToken x ts")
    from 3(3) False p have "map tok_type cs = unclosed_token x ts @ unclosed_until endt rest"
      by simp
    then obtain cs1 cs2 where cs: "cs = cs1 @ cs2" "map tok_type cs1 = unclosed_token x ts"
      "map tok_type cs2 = unclosed_until endt rest"
      by (metis map_eq_append_conv)
    have "parseToken x (ts @ cs1 @ (cs2 @ zs)) = (parsed, rest @ cs2 @ zs)"
      using 3(1) [OF False cs(2), of "cs2 @ zs"] p by simp
    moreover have "until_loop endt (childs @ parsed) (rest @ cs2 @ zs)
       = (fst (until_loop endt (childs @ parsed) rest), snd (until_loop endt (childs @ parsed) rest) @ zs)"
      using 3(2) [OF False p [symmetric] cs(3)] .
    ultimately show ?thesis using False p cs by simp
  qed
next
  case (4 pipe pre post)
  then show ?case by (cases cs) auto
next
  case (5 pipe pre post x ts)
  show ?case
  proof (cases "tok_type x = T_pipe \<or> tok_type x = T_link_end")
    case True
    with 5 show ?thesis by auto
  next
    case False
    obtain parsed rest where p: "parseToken x ts = (parsed, rest)" by (cases "parseToken x ts")
    from 5(5) False p have "map tok_type cs = unclosed_token x ts @ unclosed_link rest"
      by simp
    then obtain cs1 cs2 where cs: "cs = cs1 @ cs2" "map tok_type cs1 = unclosed_token x ts"
      "map tok_type cs2 = unclosed_link rest"
      by (metis map_eq_append_conv)
    have pt: "parseToken x (ts @ cs1 @ (cs2 @ zs)) = (parsed, rest @ cs2 @ zs)"
      using 5(2) [OF _ _ cs(2), of "cs2 @ zs"] False p by simp
    show ?thesis
    proof (cases pipe)
      case True
      have "link_loop pipe pre (post @ parsed) (rest @ cs2 @ zs)
       = (fst (link_loop pipe pre (post @ parsed) rest), snd (link_loop pipe pre (post @ parsed) rest) @ zs)"
        using 5(3) [OF _ _ p [symmetric] True cs(3)] False by simp
      then show ?thesis using pt False p cs True by simp
    next
      case np: False
      have "link_loop pipe (pre @ parsed) post (rest @ cs2 @ zs)
       = (fst (link_loop pipe (pre @ parsed) post rest), snd (link_loop pipe (pre @ parsed) post rest) @ zs)"
        using 5(4) [OF _ _ p [symmetric] np cs(3)] False by simp
      then show ?thesis using pt False p cs np by simp
    qed
  qed
qed


lemma parse_loop_closing:
  "map tok_type cs = unclosed ts \<Longrightarrow> parse_loop out (ts @ cs) = parse_loop out ts"
proof (induction ts arbitrary: out cs rule: unclosed.induct)
  case 1
  then show ?case by simp
next
  case (2 x ts)
  obtain parsed rest where p: "parseToken x ts = (parsed, rest)" by (cases "parseToken x ts")
  from 2(2) p obtain cs1 cs2 where cs: "cs = cs1 @ cs2" "map tok_type cs1 = unclosed_token x ts"
      "map tok_type cs2 = unclosed rest"
    by (metis map_eq_append_conv unclosed.simps(2) snd_conv)
  have "parseToken x (ts @ cs1 @ cs2) = (parsed, rest @ cs2)"
    using closing_appended(1) [OF cs(2), of cs2] p by simp
  moreover have "parse_loop (out @ parsed) (rest @ cs2) = parse_loop (out @ parsed) rest"
    using 2(1) [of cs2 "out @ parsed"] cs(3) p by simp
  ultimately show ?case using p cs by simp
qed


lemma contiguous_append:
  "contiguous p (xs @ ys)
     = (contiguous p xs \<and> contiguous (p + length (concat (map tok_text xs))) ys)"
  by (induction xs arbitrary: p) (auto simp: add.assoc)

lemma contiguous_ascending:
  "contiguous p ts \<Longrightarrow> \<forall>t \<in> set ts. tok_text t \<noteq> [] \<Longrightarrow>
     sorted_wrt (<) (map tok_pos ts) \<and> (\<forall>t \<in> set ts. p \<le> tok_pos t)"
proof (induction ts arbitrary: p)
  case Nil
  then show ?case by simp
next
  case (Cons t ts)
  then have ih: "sorted_wrt (<) (map tok_pos ts)"
    "\<forall>u \<in> set ts. p + length (tok_text t) \<le> tok_pos u"
    by auto
  from Cons.prems have "tok_pos t = p" "0 < length (tok_text t)" by auto
  have "tok_pos t < tok_pos u" if "u \<in> set ts" for u
  proof -
    from ih(2) that have "p + length (tok_text t) \<le> tok_pos u" by blast
    with \<open>tok_pos t = p\<close> \<open>0 < length (tok_text t)\<close> show ?thesis by linarith
  qed
  moreover have "p \<le> tok_pos u" if "u \<in> set ts" for u
    using ih(2) that by fastforce
  ultimately show ?case using ih(1) \<open>tok_pos t = p\<close> by simp
qed

lemma scan_invariant:
  assumes "input = before @ pending @ s" "length before = offset" "i = offset + length pending"
  shows "\<exists>r. compile_end input (foldl (compile_step input) (out, offset) (matches i s)) = out @ r
     \<and> concat (map tok_text r) = pending @ s
     \<and> contiguous offset r
     \<and> (\<forall>t \<in> set r. tok_text t \<noteq> [])"
  using assms
proof (induction i s arbitrary: before pending offset out rule: matches.induct)
  case (1 i)
  then show ?case
    by (cases "pending = []") (auto simp: compile_end_def substr_from_def)
next
  case (2 i c cs)
  show ?case
  proof (cases "match_at (c # cs)")
    case None
    have "\<exists>r. compile_end input (foldl (compile_step input) (out, offset) (matches (Suc i) cs)) = out @ r
       \<and> concat (map tok_text r) = (pending @ [c]) @ cs
       \<and> contiguous offset r \<and> (\<forall>t \<in> set r. tok_text t \<noteq> [])"
      using 2(1) [OF None, of before "pending @ [c]" offset out] 2(3,4,5) by simp
    then show ?thesis using None by simp
  next
    case (Some dk)
    obtain d k where dk: "dk = (d, k)" by (cases dk)
    from Some dk match_at_Some [of "c # cs" d k] have d: "d \<noteq> []" "prefix d (c # cs)" by auto
    then obtain s' where s': "c # cs = d @ s'" by (auto simp: prefix_def)
    then have dr: "drop (length d) (c # cs) = s'" by simp
    let ?m = "\<lparr>tok_type = k, tok_text = d, tok_pos = i\<rparr>"
    let ?txt = "\<lparr>tok_type = T_text, tok_text = pending, tok_pos = offset\<rparr>"
    let ?out' = "(if pending \<noteq> [] then out @ [?txt] else out) @ [?m]"
    have step: "compile_step input (out, offset) ?m = (?out', i + length d)"
      using 2(3,4,5) by (auto simp: compile_step_def substr_def)
    have "\<exists>r. compile_end input (foldl (compile_step input) (?out', i + length d) (matches (i + length d) s')) = ?out' @ r
       \<and> concat (map tok_text r) = [] @ s'
       \<and> contiguous (i + length d) r \<and> (\<forall>t \<in> set r. tok_text t \<noteq> [])"
      using 2(2) [OF Some dk [symmetric], of "before @ pending @ d" "[]" "i + length d" ?out']
        2(3,4,5) s' dr by simp
    then obtain r where r: "compile_end input (foldl (compile_step input) (?out', i + length d) (matches (i + length d) s')) = ?out' @ r"
       "concat (map tok_text r) = s'" "contiguous (i + length d) r" "\<forall>t \<in> set r. tok_text t \<noteq> []"
      by auto
    let ?r = "(if pending \<noteq> [] then [?txt] else []) @ [?m] @ r"
    have "compile_end input (foldl (compile_step input) (out, offset) (matches i (c # cs))) = out @ ?r"
      using Some dk step r(1) dr by simp
    moreover have "concat (map tok_text ?r) = pending @ c # cs"
      using r(2) s' by simp
    moreover have "contiguous offset ?r"
      using r(3) 2(5) by (cases "pending = []") simp_all
    moreover have "\<forall>t \<in> set ?r. tok_text t \<noteq> []"
      using r(4) d(1) by auto
    ultimately show ?thesis by blast
  qed
qed


lemma transform_foldl:
  "foldl (\<lambda>out child. out @ (if out \<noteq> [] then [] else []) @ f child) acc childs
     = acc @ concat (map f childs)"
  by (induction childs arbitrary: acc) simp_all

lemma transform_empty_join: "transform childs f [] = concat (map f childs)"
  using transform_foldl [of f "[]" childs] by (simp add: transform_def)

abbreviation (input) texts :: "node list \<Rightarrow> string" where
  "texts ns \<equiv> concat (map toText ns)"

lemma texts_flatten_step: "texts (flatten_step ctx out node) = texts out @ toText node"
  by (cases node) (simp_all add: transform_empty_join)

lemma texts_flatten_foldl: "texts (foldl (flatten_step ctx) out childs) = texts out @ texts childs"
  by (induction childs arbitrary: out) (simp_all add: texts_flatten_step)

lemma texts_flatten: "texts (flatten ctx childs) = texts childs"
  by (simp add: flatten_def texts_flatten_foldl)

lemma toText_combine: "combine classy a b = Some merged \<Longrightarrow> toText merged = toText a @ toText b"
  by (induction classy a b rule: combine.induct) (auto simp: transform_empty_join)

lemma texts_butlast: "out \<noteq> [] \<Longrightarrow> texts (butlast out) @ toText (last out) = texts out"
  by (induction out) auto

lemma optimize_texts:
  "toText (optimize conf cx ast) = toText ast"
  "texts (optimize_childs conf ctx childs) = texts childs"
  "texts (optimize_map conf ctx nodes) = texts nodes"
  "texts (optimize_reduce conf ctx classy out nodes) = texts out @ texts nodes"
proof (induct conf cx ast and conf ctx childs and conf ctx nodes and conf ctx classy out nodes
    rule: optimize_optimize_childs_optimize_map_optimize_reduce.induct)
  case (6 conf ctx childs)
  then show ?case by (simp add: texts_flatten)
next
  case (10 conf ctx classy out node nodes)
  let ?out = "if skip conf classy then out @ [node]
         else case if out = [] then None else combine classy (last out) node of
              None \<Rightarrow> out @ [node]
              | Some merged \<Rightarrow> butlast out @ [optimize conf ctx merged]"
  have "texts ?out = texts out @ toText node"
  proof (cases "\<not> skip conf classy \<and> out \<noteq> [] \<and> combine classy (last out) node \<noteq> None")
    case True
    then obtain merged where m: "combine classy (last out) node = Some merged" by auto
    have "toText (optimize conf ctx merged) = toText merged"
      using 10(1) [of merged] True m by simp
    moreover have "toText merged = toText (last out) @ toText node" using toText_combine [OF m] .
    moreover have "texts (butlast out) @ toText (last out) = texts out" using texts_butlast True by simp
    ultimately show ?thesis using True m by (simp del: append_assoc add: append_assoc [symmetric])
  next
    case False
    then show ?thesis by (auto split: option.splits)
  qed
  with 10(2) show ?case by simp
qed (simp_all add: transform_empty_join)

lemmas optimize_eval = optimize_conf_def empty_context_def flatten_def skip_def

lemma optimize_map_map: "optimize_map conf ctx nodes = map (optimize conf ctx) nodes"
  by (induction nodes) simp_all

lemma optimize_reduce_foldl:
  "optimize_reduce conf ctx classy out nodes = foldl (optimize_combine conf ctx classy) out nodes"
  by (induction nodes arbitrary: out) (simp_all add: optimize_combine_def)

lemma flatten_concat: "flatten ctx childs = concat (map (flatten_step ctx []) childs)"
proof -
  have step: "flatten_step ctx out node = out @ flatten_step ctx [] node" for out node
    by (cases node) simp_all
  have "foldl (flatten_step ctx) out childs = out @ concat (map (flatten_step ctx []) childs)" for out
  proof (induction childs arbitrary: out)
    case Nil
    then show ?case by simp
  next
    case (Cons node childs)
    show ?case using Cons [of "flatten_step ctx out node"] step [of out node] by simp
  qed
  from this [of "[]"] show ?thesis by (simp add: flatten_def)
qed

lemma match_at_quote:
  assumes "match_at (d @ s') = Some (d, k)" and "quote_run k" and "k \<noteq> T_q5"
  shows "\<not> prefix [apostrophe] s'"
  using assms 
  by (auto simp: match_at_simps quote_run_def q2_def q3_def q4_def q5_def eval_nat_numeral prefix_def split: if_splits)

lemma match_at_quote_start:
  assumes "match_at s = Some (d, k)" and "quote_run k"
  shows "prefix [apostrophe] s"
  using assms 
  by (auto simp: match_at_simps quote_run_def q2_def q3_def q4_def q5_def eval_nat_numeral prefix_def split: if_splits)

lemma split_run_Cons:
  "split_run (a # r) = ((quote_run (tok_type a) \<and> tok_type a \<noteq> T_q5 \<and> starts_quote r) \<or> split_run r)"
  by (cases r) (simp_all add: starts_quote_def)

lemma scan_no_split:
  assumes "input = before @ pending @ s" "length before = offset" "i = offset + length pending"
  shows "\<exists>r. compile_end input (foldl (compile_step input) (out, offset) (matches i s)) = out @ r
     \<and> \<not> split_run r
     \<and> (starts_quote r \<longrightarrow> pending = [] \<and> prefix [apostrophe] s)"
  using assms
proof (induction i s arbitrary: before pending offset out rule: matches.induct)
  case (1 i)
  then show ?case
    by (cases "pending = []") (auto simp: compile_end_def substr_from_def starts_quote_def quote_run_def)
next
  case (2 i c cs)
  show ?case
  proof (cases "match_at (c # cs)")
    case None
    have "\<exists>r. compile_end input (foldl (compile_step input) (out, offset) (matches (Suc i) cs)) = out @ r
       \<and> \<not> split_run r
       \<and> (starts_quote r \<longrightarrow> pending @ [c] = [] \<and> prefix [apostrophe] cs)"
      using 2(1) [OF None, of before "pending @ [c]" offset out] 2(3,4,5) by simp
    then show ?thesis using None by auto
  next
    case (Some dk)
    obtain d k where dk: "dk = (d, k)" by (cases dk)
    from Some dk match_at_Some [of "c # cs" d k] have d: "d \<noteq> []" "prefix d (c # cs)" by auto
    then obtain s' where s': "c # cs = d @ s'" by (auto simp: prefix_def)
    then have dr: "drop (length d) (c # cs) = s'" by simp
    let ?m = "\<lparr>tok_type = k, tok_text = d, tok_pos = i\<rparr>"
    let ?txt = "\<lparr>tok_type = T_text, tok_text = pending, tok_pos = offset\<rparr>"
    let ?out' = "(if pending \<noteq> [] then out @ [?txt] else out) @ [?m]"
    have step: "compile_step input (out, offset) ?m = (?out', i + length d)"
      using 2(3,4,5) by (auto simp: compile_step_def substr_def)
    have "\<exists>r. compile_end input (foldl (compile_step input) (?out', i + length d) (matches (i + length d) s')) = ?out' @ r
       \<and> \<not> split_run r \<and> (starts_quote r \<longrightarrow> ([]::string) = [] \<and> prefix [apostrophe] s')"
      using 2(2) [OF Some dk [symmetric], of "before @ pending @ d" "[]" "i + length d" ?out']
        2(3,4,5) s' dr by simp
    then obtain r where r: "compile_end input (foldl (compile_step input) (?out', i + length d) (matches (i + length d) s')) = ?out' @ r"
       "\<not> split_run r" "starts_quote r \<longrightarrow> prefix [apostrophe] s'"
      by auto
    let ?r = "(if pending \<noteq> [] then [?txt] else []) @ [?m] @ r"
    have a: "compile_end input (foldl (compile_step input) (out, offset) (matches i (c # cs))) = out @ ?r"
      using Some dk step r(1) dr by simp
    have m_r: "\<not> split_run (?m # r)"
    proof -
      have "\<not> (quote_run k \<and> k \<noteq> T_q5 \<and> starts_quote r)"
        using match_at_quote [of d s' k] Some dk s' r(3) by auto
      then show ?thesis using r(2) by (simp add: split_run_Cons)
    qed
    have b: "\<not> split_run ?r"
      using m_r by (simp add: split_run_Cons quote_run_def)
    have c: "starts_quote ?r \<longrightarrow> pending = [] \<and> prefix [apostrophe] (c # cs)"
      using match_at_quote_start [of "c # cs" d k] Some dk
      by (auto simp: starts_quote_def quote_run_def)
    from a b c show ?thesis by blast
  qed
qed

section \<open>Properties of the scanner and the parser\<close>

text \<open>
  C1. The parser of the token \<^verbatim>\<open>[[\<close> runs its loop, which leaves the flag \<^verbatim>\<open>pipe\<close>, the nodes
  \<^verbatim>\<open>pre\<close> of the target expression and the nodes \<^verbatim>\<open>post\<close> of the display expression. Then,
  in this order: with a pipe and no display node it produces nothing; without a pipe the display
  nodes are the target nodes; the target string is the concatenation of the plain text of the
  target nodes; with no target node the display nodes are produced as they are; otherwise it
  produces one link with that target string and the display nodes as children.
\<close>

theorem link_open_rule:
  assumes "tok_type token = T_link"
    and "link_loop False [] [] ts = ((pipe, pre, post), rest)"
  shows "parseToken token ts =
    (if pipe \<and> post = [] then ([], rest)
     else if pre = [] then (if pipe then post else pre, rest)
     else ([Link (concat (map toText pre)) (if pipe then post else pre)], rest))"
  using assms by (simp add: link_result_def parsers_def)

theorem link_open_rule_witness:
  "parseToken \<lparr>tok_type = T_link, tok_text = ''[['', tok_pos = 0\<rparr>
     [\<lparr>tok_type = T_text, tok_text = ''link'', tok_pos = 2\<rparr>,
      \<lparr>tok_type = T_pipe, tok_text = ''|'', tok_pos = 6\<rparr>,
      \<lparr>tok_type = T_text, tok_text = ''text'', tok_pos = 7\<rparr>,
      \<lparr>tok_type = T_link_end, tok_text = '']]'', tok_pos = 11\<rparr>]
   = ([Link ''link'' [Text ''text'']], [])"
proof -
  let ?ts = "[\<lparr>tok_type = T_text, tok_text = ''link'', tok_pos = 2\<rparr>,
      \<lparr>tok_type = T_pipe, tok_text = ''|'', tok_pos = 6\<rparr>,
      \<lparr>tok_type = T_text, tok_text = ''text'', tok_pos = 7\<rparr>,
      \<lparr>tok_type = T_link_end, tok_text = '']]'', tok_pos = 11\<rparr>]"
  have loop: "link_loop False [] [] ?ts = ((True, [Text ''link''], [Text ''text'']), [])"
    by (simp add: parsers_def)
  show ?thesis
    using link_open_rule [of "\<lparr>tok_type = T_link, tok_text = ''[['', tok_pos = 0\<rparr>", OF _ loop]
    by (simp add: transform_def)
qed

text \<open>
  C2. \<^verbatim>\<open>parse\<close> is a total function whose value is a \<^verbatim>\<open>Sentence\<close>, whatever the tokens are.
  A construct that the end of the input leaves open is wrapped as if it had been closed there:
  adding the closing tokens of all open constructs, the innermost first, does not change the
  tree.
\<close>

theorem parse_total:
  "(\<exists>childs. parse tokens = Sentence childs)
   \<and> (\<forall>closing. map tok_type closing = unclosed tokens
          \<longrightarrow> parse (tokens @ closing) = parse tokens)"
  by (simp add: parse_def parse_loop_closing)

theorem parse_total_witness:
  "parse (compile ''<b><i>x'') = Sentence [Bold [Italic [Text ''x'']]]
   \<and> parse (compile ''<b><i>x'' @ [\<lparr>tok_type = T_i_end, tok_text = ''</i>'', tok_pos = 7\<rparr>,
        \<lparr>tok_type = T_b_end, tok_text = ''</b>'', tok_pos = 11\<rparr>])
      = Sentence [Bold [Italic [Text ''x'']]]"
proof -
  have c: "compile ''<b><i>x'' = [\<lparr>tok_type = T_b, tok_text = ''<b>'', tok_pos = 0\<rparr>,
      \<lparr>tok_type = T_i, tok_text = ''<i>'', tok_pos = 3\<rparr>,
      \<lparr>tok_type = T_text, tok_text = ''x'', tok_pos = 6\<rparr>]"
    by (simp add: scan_eval)
  have p: "parse (compile ''<b><i>x'') = Sentence [Bold [Italic [Text ''x'']]]"
    unfolding c by (simp add: parse_eval)
  have u: "unclosed (compile ''<b><i>x'') = [T_i_end, T_b_end]"
    unfolding c by (simp add: parse_eval)
  show ?thesis
    using parse_total [of "compile ''<b><i>x''"] p u by simp
qed


text \<open>
  C8. The scanner takes the longest run of apostrophes first: five apostrophes, the letter x and
  five apostrophes give one token of five apostrophes, the text x and one token of five
  apostrophes. For no input is a token of two, three or four apostrophes followed at once by
  another token of apostrophes, so a run of five is never scanned as three and two or as two and
  three.
\<close>

theorem scan_longest_match:
  "compile (q5 @ ''x'' @ q5) =
    [\<lparr>tok_type = T_q5, tok_text = q5, tok_pos = 0\<rparr>,
     \<lparr>tok_type = T_text, tok_text = ''x'', tok_pos = 5\<rparr>,
     \<lparr>tok_type = T_q5, tok_text = q5, tok_pos = 6\<rparr>]
   \<and> \<not> split_run (compile input)"
proof -
  have "\<not> split_run (compile input)"
    using scan_no_split [of input "[]" "[]" input 0 0 "[]"] by (auto simp: compile_def)
  then show ?thesis by (simp add: scan_eval)
qed



text \<open>
  C9. For every input the tokens cover the input without loss: the texts of the tokens, in
  order, make up the input; the first token starts at 0 and each token starts where the one
  before it ends; the positions ascend strictly; no token, so no text token, is empty.
\<close>

theorem scan_covers_input:
  "concat (map tok_text (compile input)) = input
   \<and> contiguous 0 (compile input)
   \<and> sorted_wrt (<) (map tok_pos (compile input))
   \<and> (\<forall>t \<in> set (compile input). tok_text t \<noteq> [])"
proof -
  from scan_invariant [of input "[]" "[]" input 0 0 "[]"]
  obtain r where r: "compile input = r" "concat (map tok_text r) = input" "contiguous 0 r"
    "\<forall>t \<in> set r. tok_text t \<noteq> []"
    by (auto simp: compile_def)
  with contiguous_ascending [OF r(3,4)] show ?thesis by simp
qed


theorem scan_covers_input_witness:
  "concat (map tok_text (compile ''a[[b'')) = ''a[[b''
   \<and> map tok_pos (compile ''a[[b'') = [0, 1, 3]
   \<and> map tok_text (compile ''a[[b'') = [''a'', ''[['', ''b'']"
  using scan_covers_input [of "''a[[b''"] by (simp add: scan_eval)

section \<open>Properties of links\<close>

text \<open>
  C6, as the program has it. The reference of an internal target is \<^verbatim>\<open>./\<close>, the upper case
  of the first character as \<^verbatim>\<open>toUpperCase\<close> gives it, and the rest of the target with every space
  replaced by an underscore. The replacement does not stop at the number sign: the spaces of
  the anchor become underscores as well. Only a target whose rest has no space keeps its anchor
  as it is. This holds whatever function \<^verbatim>\<open>toUpperCase\<close> is.
\<close>

theorem internal_reference:
  assumes "\<not> isExternal target"
  shows "href toUpperCase target
           = ''./'' @ toUpperCase (take 1 target) @ replace_spaces (drop 1 target)
    \<and> (\<forall>p a. target = p @ CHR ''#'' # a \<and> p \<noteq> [] \<longrightarrow>
          href toUpperCase target
            = ''./'' @ toUpperCase (take 1 p) @ replace_spaces (drop 1 p)
                @ CHR ''#'' # replace_spaces a)
    \<and> (CHR '' '' \<notin> set (drop 1 target) \<longrightarrow>
          href toUpperCase target = ''./'' @ toUpperCase (take 1 target) @ drop 1 target)"
proof -
  have h: "href toUpperCase target
             = ''./'' @ toUpperCase (take 1 target) @ replace_spaces (drop 1 target)"
    using assms by (simp add: href_def internalLink_def substr_def substr_from_def)
  have split: "href toUpperCase target
                 = ''./'' @ toUpperCase (take 1 p) @ replace_spaces (drop 1 p)
                     @ CHR ''#'' # replace_spaces a"
    if "target = p @ CHR ''#'' # a" and "p \<noteq> []" for p a
    using that h by (cases p) (simp_all add: replace_spaces_def)
  have same: "replace_spaces s = s" if "CHR '' '' \<notin> set s" for s
    using that by (induction s) (auto simp: replace_spaces_def)
  show ?thesis using h split same by simp
qed

theorem internal_reference_witness:
  "href toUpperCase_ascii ''my page#my anchor'' = ''./My_page#my_anchor''"
proof -
  have i: "\<not> isExternal ''my page#my anchor''" by (simp add: link_eval)
  show ?thesis
    using internal_reference [OF i, of toUpperCase_ascii] by (simp add: link_eval)
qed

text \<open>
  C6, as the claim has it, fails for the target \<^verbatim>\<open>a#b c\<close>, an ASCII string whose first
  character \<^verbatim>\<open>a\<close> has the upper case \<^verbatim>\<open>A\<close>: the reference does not end with the anchor
  \<^verbatim>\<open>#b c\<close> of the target, and the space behind the number sign is not kept.
\<close>

theorem internal_reference_counterexample:
  "\<not> isExternal ''a#b c''
   \<and> toUpperCase_ascii ''a'' = ''A''
   \<and> href toUpperCase_ascii ''a#b c'' = ''./A#b_c''
   \<and> \<not> suffix ''#b c'' (href toUpperCase_ascii ''a#b c'')
   \<and> CHR '' '' \<notin> set (href toUpperCase_ascii ''a#b c'')"
  by (simp add: link_eval suffix_def)

text \<open>
  What holds of the keys \<^verbatim>\<open>site\<close> and \<^verbatim>\<open>page\<close>: an external link has \<^verbatim>\<open>site\<close> and no
  \<^verbatim>\<open>page\<close>, an internal link has no \<^verbatim>\<open>site\<close>.
\<close>

lemma link_summary_site_page:
  "json_site (Link_toJSON target childs) = (if isExternal target then Some target else None)"
  "isExternal target \<Longrightarrow> json_page (Link_toJSON target childs) = None"
  by (simp_all add: Link_toJSON_def site_def page_def)

text \<open>
  C7. The getter \<^verbatim>\<open>anchor\<close> does not ask whether the link is external, unlike \<^verbatim>\<open>site\<close> and
  \<^verbatim>\<open>page\<close>: the summary of an external link whose target has a number sign has both the key
  \<^verbatim>\<open>site\<close> and the key \<^verbatim>\<open>anchor\<close>.
\<close>

theorem external_link_summary_has_anchor:
  "Link_toJSON ''http://a.b/c#d'' [Text ''x''] =
     \<lparr>json_type = ''external'', json_text = ''x'', json_site = Some ''http://a.b/c#d'',
      json_page = None, json_anchor = Some ''d''\<rparr>"
  by (simp add: link_eval)


section \<open>Properties of the optimizer\<close>

text \<open>
  C4. Optimizing a tree does not change its plain text, for every tree, every setting of the
  options and every context, so in particular for the default options and the empty context.
\<close>

theorem optimize_keeps_text:
  "toText (optimize conf cx ast) = toText ast"
  by (rule optimize_texts(1))

theorem optimize_keeps_text_witness:
  "toText (optimize optimize_conf empty_context (Bold [Bold [Text ''a''], Text ''b'']))
     = toText (Bold [Bold [Text ''a''], Text ''b'']) \<and>
   optimize optimize_conf empty_context (Bold [Bold [Text ''a''], Text ''b'']) = Bold [Text ''ab'']"
  using optimize_keeps_text [of optimize_conf empty_context "Bold [Bold [Text ''a''], Text ''b'']"]
  by (simp add: optimize_eval)

text \<open>
  C3. The first pass puts the children of a nested node in its place and does not look at them
  again: a bold node inside a bold node inside a bold node loses one level in one run of
  \<^verbatim>\<open>optimize\<close> and the next level in a second run. With the default options, the second run
  changes the result of the first.
\<close>

theorem optimize_twice_differs:
  "optimize optimize_conf empty_context (Bold [Bold [Bold [Text ''x'']]])
     = Bold [Bold [Text ''x'']]
   \<and> optimize optimize_conf empty_context
        (optimize optimize_conf empty_context (Bold [Bold [Bold [Text ''x'']]]))
     = Bold [Text ''x'']"
  by (simp add: optimize_eval)

text \<open>
  C5. The sentence of the claim's example is optimized as the claim says.
\<close>

lemma optimize_bold_in_bold:
  "optimize optimize_conf empty_context
     (parse (compile (''pre <b>pre <b>bold'' @ [CHR 0xB2] @ ''</b> post</b> post'')))
   = Sentence [Text ''pre '', Bold [Text (''pre bold'' @ [CHR 0xB2] @ '' post'')], Text '' post'']"
  by (simp add: scan_eval parse_eval optimize_eval)

text \<open>
  C5. With one more level the nesting stays: of three bold tags, one inside the other, the
  optimized sentence keeps a bold node inside a bold node.
\<close>

theorem optimize_leaves_nesting:
  "parse (compile ''<b><b><b>x</b></b></b>'') = Sentence [Bold [Bold [Bold [Text ''x'']]]]
   \<and> optimize optimize_conf empty_context (parse (compile ''<b><b><b>x</b></b></b>''))
     = Sentence [Bold [Bold [Text ''x'']]]"
  by (simp add: scan_eval parse_eval optimize_eval)

end
